theory Spec2Isabelle
  imports Complex_Main "HOL-Library.Signed_Division" "HOL-Library.Mapping" "HOL-Library.AList_Mapping"
begin

section \<open>Values and failures\<close>

text \<open>
  \<^verbatim>\<open>gpt_vocab::id\<close> is a 32-bit integer used only as a key and compared for equality.
  C++ \<^verbatim>\<open>int\<close> values (sizes, cursors, counts, arguments) are the integers they denote.
  Signed overflow, undefined in C++, is left out of the model: the code reaches it only with
  a vector of \<open>2 ^ 29\<close> tokens or more, or with an integer argument or a context length of
  magnitude \<open>2 ^ 29\<close> or more. The remainder operator \<^verbatim>\<open>%\<close> of C++ truncates towards
  zero, which is \<open>smod\<close>. The members \<^verbatim>\<open>capacity_\<close>, \<^verbatim>\<open>tokens_\<close>, \<^verbatim>\<open>pos_\<close>,
  \<^verbatim>\<open>n_ctx_\<close>, \<^verbatim>\<open>vocab_\<close>, ... are written without the trailing underscore.

  Undefined behaviour of the C++ (a remainder by zero, an iterator or index outside its
  vector) is a value of \<open>error\<close>, so that no function of the model hides it.
\<close>

type_synonym token_id = int

datatype error = DivisionByZero | OutOfRange

section \<open>RingBuffer\<close>

record RingBuffer =
  capacity :: int
  tokens :: "token_id list"
  pos :: int

definition Clear :: "RingBuffer \<Rightarrow> RingBuffer" where
  "Clear rb = rb\<lparr>tokens := [], pos := 0\<rparr>"

definition RingBuffer_Init :: "int \<Rightarrow> RingBuffer \<Rightarrow> RingBuffer" where
  "RingBuffer_Init cap rb = Clear (rb\<lparr>capacity := cap\<rparr>)"

definition Size :: "RingBuffer \<Rightarrow> int" where
  "Size rb = int (length (tokens rb))"

text \<open>\<^verbatim>\<open>a % b\<close>: undefined for \<open>b = 0\<close>, truncating otherwise.\<close>

definition c_rem :: "int \<Rightarrow> int \<Rightarrow> error + int" where
  "c_rem a b = (if b = 0 then Inl DivisionByZero else Inr (a smod b))"

text \<open>
  \<^verbatim>\<open>Add\<close>: \<^verbatim>\<open>push_back\<close> while the vector is shorter than the capacity, otherwise the
  unchecked write \<^verbatim>\<open>tokens_[pos_] = token\<close>; then the cursor advances modulo the capacity.
\<close>

definition Add :: "RingBuffer \<Rightarrow> token_id \<Rightarrow> error + RingBuffer" where
  "Add rb token =
     (if Size rb < capacity rb then
        (case c_rem (pos rb + 1) (capacity rb) of
           Inl e \<Rightarrow> Inl e
         | Inr p \<Rightarrow> Inr (rb\<lparr>tokens := tokens rb @ [token], pos := p\<rparr>))
      else if pos rb < 0 \<or> Size rb \<le> pos rb then Inl OutOfRange
      else
        (case c_rem (pos rb + 1) (capacity rb) of
           Inl e \<Rightarrow> Inl e
         | Inr p \<Rightarrow> Inr (rb\<lparr>tokens := (tokens rb)[nat (pos rb) := token], pos := p\<rparr>)))"

text \<open>A sequence of \<^verbatim>\<open>Add\<close> calls, in order; the first failure ends it.\<close>

fun AddAll :: "RingBuffer \<Rightarrow> token_id list \<Rightarrow> error + RingBuffer" where
  "AddAll rb [] = Inr rb"
| "AddAll rb (t # ts) = (case Add rb t of Inl e \<Rightarrow> Inl e | Inr rb' \<Rightarrow> AddAll rb' ts)"

text \<open>
  \<^verbatim>\<open>result.insert(tokens_.begin() + lo, tokens_.begin() + hi)\<close>: the iterator range
  must lie inside the vector and be ordered.
\<close>

definition insert_range :: "token_id set \<Rightarrow> token_id list \<Rightarrow> int \<Rightarrow> int \<Rightarrow> error + token_id set" where
  "insert_range result xs lo hi =
     (if 0 \<le> lo \<and> lo \<le> hi \<and> hi \<le> int (length xs)
      then Inr (result \<union> set (take (nat (hi - lo)) (drop (nat lo) xs)))
      else Inl OutOfRange)"

definition GetRecent :: "RingBuffer \<Rightarrow> int \<Rightarrow> error + token_id set" where
  "GetRecent rb n0 =
     (let size = Size rb;
          n = min size n0;
          result = {}
      in if n = 0 then Inr result
         else
           (case c_rem (pos rb - n + size) size of
              Inl e \<Rightarrow> Inl e
            | Inr start \<Rightarrow>
                if start < pos rb then insert_range result (tokens rb) start (pos rb)
                else
                  (case insert_range result (tokens rb) start size of
                     Inl e \<Rightarrow> Inl e
                   | Inr result' \<Rightarrow> insert_range result' (tokens rb) 0 (pos rb))))"

text \<open>
  The state a ring buffer is in after \<^verbatim>\<open>Init\<close> with a positive capacity and any number of
  \<^verbatim>\<open>Add\<close> calls, and the tokens it retains, oldest first.
\<close>

definition ring_inv :: "RingBuffer \<Rightarrow> bool" where
  "ring_inv rb \<longleftrightarrow>
     0 < capacity rb \<and> Size rb \<le> capacity rb \<and>
     (if Size rb < capacity rb then pos rb = Size rb else 0 \<le> pos rb \<and> pos rb < capacity rb)"

definition window :: "RingBuffer \<Rightarrow> token_id list" where
  "window rb =
     (if Size rb < capacity rb then tokens rb
      else drop (nat (pos rb)) (tokens rb) @ take (nat (pos rb)) (tokens rb))"

section \<open>LLM\<close>

text \<open>
  Modelled from the spec: \<^verbatim>\<open>gpt_vocab\<close>, declared in \<^verbatim>\<open>common.h\<close>: the two maps between
  token text and token id, and the registry of special tokens. \<^verbatim>\<open>llm.h\<close> uses
  \<^verbatim>\<open>token_to_id.find\<close>, \<^verbatim>\<open>id_to_token.find\<close>, \<^verbatim>\<open>id_to_token.size()\<close> and
  \<^verbatim>\<open>special_tokens.empty()\<close>.
\<close>

record gpt_vocab =
  token_to_id :: "(string, token_id) mapping"
  id_to_token :: "(token_id, string) mapping"
  special_tokens :: "string list"

text \<open>
  The session. \<open>model\<close> is the member \<^verbatim>\<open>model_\<close> that \<^verbatim>\<open>REGISTER_LLM\<close> adds for an
  architecture; its type is the architecture's. A \<^verbatim>\<open>float\<close> is the real number it denotes;
  the only operation of this file on one is the comparison with \<^verbatim>\<open>1.0f\<close>.
\<close>

record 'm LLM =
  n_ctx :: int
  vocab :: gpt_vocab
  mem_per_token :: nat
  logits :: "real list"
  previous_tokens :: RingBuffer
  initialized :: bool
  model :: 'm

text \<open>
  The capabilities of an architecture, defined outside this file and taken as parameters:
  \<^verbatim>\<open>_name##_model_load(filename, model_, vocab_)\<close>, the field \<^verbatim>\<open>model_.hparams.n_ctx\<close>,
  and \<^verbatim>\<open>_name##_eval(model_, threads, n_past, tokens, logits_, mem_per_token_)\<close>. Arguments
  passed by reference come back in the result.
\<close>

type_synonym 'm model_load = "string \<Rightarrow> 'm \<Rightarrow> gpt_vocab \<Rightarrow> bool \<times> 'm \<times> gpt_vocab"

type_synonym 'm model_eval =
  "'m \<Rightarrow> int \<Rightarrow> int \<Rightarrow> token_id list \<Rightarrow> real list \<Rightarrow> nat \<Rightarrow> bool \<times> 'm \<times> real list \<times> nat"

text \<open>\<^verbatim>\<open>std::mt19937 rng(seed)\<close>: the generator is determined by its seed.\<close>

datatype mt19937 = Mt19937 int

text \<open>\<^verbatim>\<open>gpt_sample_top_k_top_p\<close> of \<^verbatim>\<open>common.h\<close>, a parameter.\<close>

type_synonym sampler =
  "gpt_vocab \<Rightarrow> real list \<Rightarrow> int \<Rightarrow> real \<Rightarrow> real \<Rightarrow> real \<Rightarrow> token_id set \<Rightarrow> mt19937 \<Rightarrow> token_id"

definition ContextLength :: "'m LLM \<Rightarrow> int" where
  "ContextLength s = n_ctx s"

definition VocabSize :: "'m LLM \<Rightarrow> int" where
  "VocabSize s = int (Mapping.size (id_to_token (vocab s)))"

definition kEmptyString :: string where
  "kEmptyString = []"

definition Load :: "'m model_load \<Rightarrow> ('m \<Rightarrow> int) \<Rightarrow> string \<Rightarrow> 'm LLM \<Rightarrow> bool \<times> 'm LLM" where
  "Load model_load hparams_n_ctx filename s =
     (case model_load filename (model s) (vocab s) of
        (ok, m, v) \<Rightarrow>
          if \<not> ok then (False, s\<lparr>vocab := v, model := m\<rparr>)
          else (True, s\<lparr>n_ctx := hparams_n_ctx m, vocab := v, model := m\<rparr>))"

definition Eval :: "'m model_eval \<Rightarrow> 'm LLM \<Rightarrow> token_id list \<Rightarrow> int \<Rightarrow> int \<Rightarrow> bool \<times> 'm LLM" where
  "Eval model_eval s toks threads n_past =
     (case model_eval (model s) threads n_past toks (logits s) (mem_per_token s) of
        (ok, m, l, mpt) \<Rightarrow> (ok, s\<lparr>mem_per_token := mpt, logits := l, model := m\<rparr>))"

definition LLM_Init :: "'m model_load \<Rightarrow> ('m \<Rightarrow> int) \<Rightarrow> string \<Rightarrow> 'm LLM \<Rightarrow> bool \<times> 'm LLM" where
  "LLM_Init model_load hparams_n_ctx filename s =
     (if initialized s then (False, s)
      else
        (case Load model_load hparams_n_ctx filename s of
           (ok, s') \<Rightarrow>
             if \<not> ok then (False, s')
             else (True, s'\<lparr>previous_tokens := RingBuffer_Init (ContextLength s') (previous_tokens s'),
                             initialized := True\<rparr>)))"

definition Tokenize :: "(gpt_vocab \<Rightarrow> string \<Rightarrow> token_id list) \<Rightarrow> 'm LLM \<Rightarrow> string \<Rightarrow> token_id list" where
  "Tokenize gpt_tokenize s text = gpt_tokenize (vocab s) text"

definition Detokenize :: "'m LLM \<Rightarrow> token_id \<Rightarrow> string" where
  "Detokenize s i =
     (case Mapping.lookup (id_to_token (vocab s)) i of
        None \<Rightarrow> kEmptyString
      | Some t \<Rightarrow> t)"

definition EosToken :: "'m LLM \<Rightarrow> token_id" where
  "EosToken s =
     (case Mapping.lookup (token_to_id (vocab s)) ''<|endoftext|>'' of
        Some i \<Rightarrow> i
      | None \<Rightarrow> 0)"

definition IsEosToken :: "'m LLM \<Rightarrow> token_id \<Rightarrow> bool" where
  "IsEosToken s token =
     (if token = EosToken s then True
      else if special_tokens (vocab s) \<noteq> [] then Detokenize s token = ''### End''
      else False)"

definition Reset :: "'m LLM \<Rightarrow> 'm LLM" where
  "Reset s = s\<lparr>logits := [], previous_tokens := Clear (previous_tokens s)\<rparr>"

text \<open>
  \<^verbatim>\<open>EvalInternal\<close>. \<open>hardware_concurrency\<close> is the value of
  \<^verbatim>\<open>(int)std::thread::hardware_concurrency()\<close>.
\<close>

definition EvalInternal ::
  "int \<Rightarrow> 'm model_eval \<Rightarrow> 'm LLM \<Rightarrow> token_id list \<Rightarrow> int \<Rightarrow> error + bool \<times> 'm LLM" where
  "EvalInternal hardware_concurrency model_eval s toks threads0 =
     (let threads = (if threads0 < 0 then min hardware_concurrency 4 else threads0);
          n_past = min (ContextLength s - int (length toks)) (Size (previous_tokens s))
      in case Eval model_eval s toks threads n_past of
           (ok, s') \<Rightarrow>
             if \<not> ok then Inr (False, s')
             else
               (case AddAll (previous_tokens s') toks of
                  Inl e \<Rightarrow> Inl e
                | Inr rb \<Rightarrow> Inr (True, s'\<lparr>previous_tokens := rb\<rparr>)))"

text \<open>
  \<^verbatim>\<open>std::vector<gpt_vocab::id> batch(tokens.begin() + start, tokens.begin() + end)\<close>: the
  range must lie inside the vector and be ordered.
\<close>

definition batch_range :: "token_id list \<Rightarrow> int \<Rightarrow> int \<Rightarrow> error + token_id list" where
  "batch_range toks lo hi =
     (if 0 \<le> lo \<and> lo \<le> hi \<and> hi \<le> int (length toks)
      then Inr (take (nat (hi - lo)) (drop (nat lo) toks))
      else Inl OutOfRange)"

text \<open>
  The \<^verbatim>\<open>for\<close> loop of \<^verbatim>\<open>BatchEval\<close>, from the index \<open>start\<close> on. It need not end (a batch
  size of zero never advances), so it is a partial function: \<open>None\<close> is a loop that runs
  forever.
\<close>

partial_function (option) BatchEval_loop ::
  "int \<Rightarrow> 'm model_eval \<Rightarrow> token_id list \<Rightarrow> int \<Rightarrow> int \<Rightarrow> 'm LLM \<Rightarrow> int \<Rightarrow> (error + bool \<times> 'm LLM) option" where
  "BatchEval_loop hardware_concurrency model_eval toks batch_size threads s start =
     (if start < int (length toks) then
        (case batch_range toks start (min (start + batch_size) (int (length toks))) of
           Inl e \<Rightarrow> Some (Inl e)
         | Inr batch \<Rightarrow>
             (case EvalInternal hardware_concurrency model_eval s batch threads of
                Inl e \<Rightarrow> Some (Inl e)
              | Inr (ok, s') \<Rightarrow>
                  if \<not> ok then Some (Inr (False, s'))
                  else BatchEval_loop hardware_concurrency model_eval toks batch_size threads s'
                         (start + batch_size)))
      else Some (Inr (True, s)))"

definition BatchEval ::
  "int \<Rightarrow> 'm model_eval \<Rightarrow> 'm LLM \<Rightarrow> token_id list \<Rightarrow> int \<Rightarrow> int \<Rightarrow> (error + bool \<times> 'm LLM) option" where
  "BatchEval hardware_concurrency model_eval s toks batch_size threads =
     BatchEval_loop hardware_concurrency model_eval toks batch_size threads s 0"

text \<open>
  \<^verbatim>\<open>logits_.data() + (logits_.size() - VocabSize())\<close>: the last \<^verbatim>\<open>VocabSize()\<close> entries of
  the logits, which the sampler reads; the pointer is outside the vector when the vocabulary
  is larger than the logits.
\<close>

definition logits_tail :: "'m LLM \<Rightarrow> error + real list" where
  "logits_tail s =
     (if VocabSize s \<le> int (length (logits s))
      then Inr (drop (nat (int (length (logits s)) - VocabSize s)) (logits s))
      else Inl OutOfRange)"

text \<open>\<^verbatim>\<open>Sample\<close>. \<open>now\<close> is the value \<^verbatim>\<open>time(nullptr)\<close> returns, as an \<^verbatim>\<open>int\<close>.\<close>

definition Sample ::
  "sampler \<Rightarrow> int \<Rightarrow> 'm LLM \<Rightarrow> int \<Rightarrow> real \<Rightarrow> real \<Rightarrow> real \<Rightarrow> int \<Rightarrow> int \<Rightarrow> error + token_id" where
  "Sample gpt_sample_top_k_top_p now s top_k top_p temperature repetition_penalty last_n_tokens0 seed0 =
     (if logits s = [] then Inr (EosToken s)
      else
        (let last_n_tokens = (if last_n_tokens0 < 0 then ContextLength s else last_n_tokens0);
             seed = (if seed0 < 0 then now else seed0);
             rng = Mt19937 seed
         in case (if repetition_penalty \<noteq> 1 then GetRecent (previous_tokens s) last_n_tokens
                  else Inr {}) of
              Inl e \<Rightarrow> Inl e
            | Inr recent_tokens \<Rightarrow>
                (case logits_tail s of
                   Inl e \<Rightarrow> Inl e
                 | Inr l \<Rightarrow>
                     Inr (gpt_sample_top_k_top_p (vocab s) l top_k top_p temperature
                            repetition_penalty recent_tokens rng))))"

section \<open>The batches of the specification\<close>

text \<open>
  The specification's words for \<^verbatim>\<open>BatchEval\<close>: the tokens are cut into consecutive chunks of
  \<open>n\<close> tokens, the last one possibly shorter, and the chunks go through the internal
  evaluation step one after the other, up to the first that fails.
\<close>

fun chunks :: "nat \<Rightarrow> 'a list \<Rightarrow> 'a list list" where
  "chunks n xs = (if n = 0 \<or> xs = [] then [] else take n xs # chunks n (drop n xs))"

fun EvalChunks ::
  "int \<Rightarrow> 'm model_eval \<Rightarrow> int \<Rightarrow> 'm LLM \<Rightarrow> token_id list list \<Rightarrow> error + bool \<times> 'm LLM" where
  "EvalChunks hw ev threads s [] = Inr (True, s)"
| "EvalChunks hw ev threads s (c # cs) =
     (case EvalInternal hw ev s c threads of
        Inl e \<Rightarrow> Inl e
      | Inr (ok, s') \<Rightarrow> if \<not> ok then Inr (False, s') else EvalChunks hw ev threads s' cs)"

text \<open>
  An engine that also keeps the list of the calls made to it: the batch, the thread count
  and \<open>n_past\<close> of each, in order.
\<close>

type_synonym eval_call = "token_id list \<times> int \<times> int"

definition recording :: "'m model_eval \<Rightarrow> ('m \<times> eval_call list) model_eval" where
  "recording ev = (\<lambda>(m, calls) threads n_past toks l mpt.
     case ev m threads n_past toks l mpt of
       (ok, m', l', mpt') \<Rightarrow> (ok, (m', calls @ [(toks, threads, n_past)]), l', mpt'))"

definition calls :: "('m \<times> eval_call list) LLM \<Rightarrow> eval_call list" where
  "calls s = snd (model s)"

section \<open>Sessions and engines of the examples\<close>

text \<open>
  An initialised session with no logits and an empty recency buffer of capacity \<open>n\<close>; an
  engine that accepts every batch and one that accepts a batch only while \<open>n_past < k\<close>;
  a vocabulary with the end-of-text token and the marker of Dolly V2 as a special token, the
  same with no special token, and one without the end-of-text token.
\<close>

definition session :: "'m \<Rightarrow> gpt_vocab \<Rightarrow> int \<Rightarrow> 'm LLM" where
  "session m v n =
     \<lparr>n_ctx = n, vocab = v, mem_per_token = 0, logits = [],
      previous_tokens = \<lparr>capacity = n, tokens = [], pos = 0\<rparr>, initialized = True, model = m\<rparr>"

definition engine_ok :: "unit model_eval" where
  "engine_ok = (\<lambda>m threads n_past toks l mpt. (True, m, [0, 1], mpt))"

definition engine_until :: "int \<Rightarrow> unit model_eval" where
  "engine_until k = (\<lambda>m threads n_past toks l mpt. (n_past < k, m, l, mpt))"

definition dolly_vocab :: gpt_vocab where
  "dolly_vocab =
     \<lparr>token_to_id = Mapping.update ''<|endoftext|>'' 7 (Mapping.update ''### End'' 9 Mapping.empty),
      id_to_token = Mapping.update 7 ''<|endoftext|>'' (Mapping.update 9 ''### End'' Mapping.empty),
      special_tokens = [''### End'']\<rparr>"

definition load_ok :: "unit model_load" where
  "load_ok = (\<lambda>filename m v. (True, m, dolly_vocab))"

definition load_fail :: "unit model_load" where
  "load_fail = (\<lambda>filename m v. (False, m, v))"

definition gpt2_vocab :: gpt_vocab where
  "gpt2_vocab =
     \<lparr>token_to_id = Mapping.update ''<|endoftext|>'' 7 (Mapping.update ''### End'' 9 Mapping.empty),
      id_to_token = Mapping.update 7 ''<|endoftext|>'' (Mapping.update 9 ''### End'' Mapping.empty),
      special_tokens = []\<rparr>"

text \<open>
  A sampler that tells what it was given: the seed of the generator when the set of recent
  tokens is empty, and \<open>- 1\<close> otherwise.
\<close>

definition sampler_probe :: sampler where
  "sampler_probe = (\<lambda>v l top_k top_p temperature repetition_penalty recent_tokens rng.
     if recent_tokens = {} then (case rng of Mt19937 seed \<Rightarrow> seed) else - 1)"

definition plain_vocab :: gpt_vocab where
  "plain_vocab =
     \<lparr>token_to_id = Mapping.update ''a'' 0 (Mapping.update ''### End'' 9 Mapping.empty),
      id_to_token = Mapping.update 0 ''a'' (Mapping.update 9 ''### End'' Mapping.empty),
      special_tokens = []\<rparr>"

section \<open>The ring buffer retains the last tokens\<close>

lemma smod_nonneg: "0 \<le> a \<Longrightarrow> 0 < b \<Longrightarrow> (a::int) smod b = a mod b"
  by (simp add: smod_int_alt_def sgn_if)

lemma c_rem_nonneg: "0 \<le> a \<Longrightarrow> 0 < b \<Longrightarrow> c_rem a b = Inr (a mod b)"
  by (simp add: c_rem_def smod_nonneg)

lemma ring_inv_Init: "0 < cap \<Longrightarrow> ring_inv (RingBuffer_Init cap rb)"
  by (simp add: ring_inv_def RingBuffer_Init_def Clear_def Size_def)

lemma window_Init: "0 < cap \<Longrightarrow> window (RingBuffer_Init cap rb) = []"
  by (simp add: window_def RingBuffer_Init_def Clear_def Size_def)

lemma capacity_Init: "capacity (RingBuffer_Init cap rb) = cap"
  by (simp add: RingBuffer_Init_def Clear_def)

lemma length_window: "length (window rb) = length (tokens rb)"
  by (auto simp: window_def)

lemma Add_filling:
  assumes "ring_inv rb" "Size rb < capacity rb"
  shows "\<exists>rb'. Add rb t = Inr rb' \<and> ring_inv rb' \<and> capacity rb' = capacity rb \<and>
           window rb' = window rb @ [t]"
proof -
  from assms have p: "pos rb = Size rb" and c: "0 < capacity rb"
    by (simp_all add: ring_inv_def)
  have sz: "0 \<le> Size rb" by (simp add: Size_def)
  let ?p = "(pos rb + 1) mod capacity rb"
  let ?rb = "rb\<lparr>tokens := tokens rb @ [t], pos := ?p\<rparr>"
  have a: "Add rb t = Inr ?rb"
    using assms(2) c p sz by (simp add: Add_def c_rem_nonneg)
  have s': "Size ?rb = Size rb + 1" by (simp add: Size_def)
  show ?thesis
  proof (cases "Size rb + 1 < capacity rb")
    case True
    then have "?p = Size rb + 1" using p sz by simp
    then have "ring_inv ?rb \<and> window ?rb = window rb @ [t]"
      using True c assms(2) s' by (simp add: ring_inv_def window_def)
    then show ?thesis using a by simp
  next
    case False
    then have e: "Size rb + 1 = capacity rb" using assms(2) by simp
    then have "?p = 0" using p by simp
    then have "ring_inv ?rb \<and> window ?rb = window rb @ [t]"
      using e c assms(2) s' by (simp add: ring_inv_def window_def)
    then show ?thesis using a by simp
  qed
qed

lemma Add_full:
  assumes "ring_inv rb" "\<not> Size rb < capacity rb"
  shows "\<exists>rb'. Add rb t = Inr rb' \<and> ring_inv rb' \<and> capacity rb' = capacity rb \<and>
           window rb' = tl (window rb) @ [t]"
proof -
  from assms have e: "Size rb = capacity rb" and c: "0 < capacity rb"
    and p: "0 \<le> pos rb" "pos rb < capacity rb"
    by (simp_all add: ring_inv_def)
  define k where "k = nat (pos rb)"
  define n where "n = length (tokens rb)"
  have kn: "k < n" and pk: "pos rb = int k" and cn: "capacity rb = int n"
    using e p by (simp_all add: k_def n_def Size_def)
  let ?p = "(pos rb + 1) mod capacity rb"
  let ?rb = "rb\<lparr>tokens := (tokens rb)[k := t], pos := ?p\<rparr>"
  have a: "Add rb t = Inr ?rb"
    using assms(2) c p e by (simp add: Add_def c_rem_nonneg k_def)
  have s': "Size ?rb = Size rb" by (simp add: Size_def)
  have w: "window rb = drop k (tokens rb) @ take k (tokens rb)"
    using assms(2) by (simp add: window_def k_def)
  have tlw: "tl (window rb) = drop (Suc k) (tokens rb) @ take k (tokens rb)"
    using kn by (simp add: w n_def drop_Suc tl_drop)
  have inv: "ring_inv ?rb"
    using e c s' by (simp add: ring_inv_def)
  show ?thesis
  proof (cases "Suc k < n")
    case True
    then have "?p = int (Suc k)" using pk cn by simp
    moreover have "nat (1 + int k) = Suc k" by simp
    ultimately have "window ?rb = drop (Suc k) ((tokens rb)[k := t]) @ take (Suc k) ((tokens rb)[k := t])"
      using e s' by (simp add: window_def del: drop_update_cancel take_update_cancel)
    also have "\<dots> = drop (Suc k) (tokens rb) @ take k (tokens rb) @ [t]"
      using kn by (simp add: n_def take_Suc_conv_app_nth)
    finally show ?thesis using a inv tlw by simp
  next
    case False
    then have sk: "Suc k = n" using kn by simp
    then have "int k + 1 = int n" by simp
    then have "?p = 0" using pk cn by simp
    then have "window ?rb = (tokens rb)[k := t]"
      using e s' by (simp add: window_def)
    also have "\<dots> = take k (tokens rb) @ [t]"
      using sk by (metis Suc_eq_plus1 kn n_def upd_conv_take_nth_drop drop_all le_refl append_Nil2 Suc_leI)
    finally show ?thesis using a inv tlw sk by (simp add: n_def)
  qed
qed

lemma mod_wrap: "0 \<le> a \<Longrightarrow> a < b \<Longrightarrow> (a + b) mod b = (a::int)"
  by simp

lemma nat_int_diff: "nat (int a - int b) = a - b"
  by simp

lemma insert_range_nat:
  "a \<le> b \<Longrightarrow> b \<le> length xs \<Longrightarrow>
   insert_range r xs (int a) (int b) = Inr (r \<union> set (take (b - a) (drop a xs)))"
  by (simp add: insert_range_def nat_int_diff)

lemma Add_window:
  assumes "ring_inv rb"
  shows "\<exists>rb'. Add rb t = Inr rb' \<and> ring_inv rb' \<and> capacity rb' = capacity rb \<and>
           window rb' = drop (Suc (length (window rb)) - nat (capacity rb)) (window rb @ [t])"
proof (cases "Size rb < capacity rb")
  case True
  then have "Suc (length (window rb)) - nat (capacity rb) = 0"
    by (simp add: length_window Size_def)
  then show ?thesis using Add_filling [OF assms True, of t] by simp
next
  case False
  with assms have e: "Size rb = capacity rb" and c: "0 < capacity rb"
    by (simp_all add: ring_inv_def)
  then have l: "length (window rb) = nat (capacity rb)"
    by (auto simp: length_window Size_def)
  then have ne: "window rb \<noteq> []" using c by auto
  have "drop (Suc (length (window rb)) - nat (capacity rb)) (window rb @ [t]) = tl (window rb) @ [t]"
    using ne c by (simp add: l Suc_diff_le drop_Suc)
  then show ?thesis using Add_full [OF assms False, of t] by simp
qed

lemma ring_inv_length: "ring_inv rb \<Longrightarrow> length (window rb) \<le> nat (capacity rb)"
  by (auto simp: ring_inv_def length_window Size_def)

lemma AddAll_window:
  "ring_inv rb \<Longrightarrow>
   \<exists>rb'. AddAll rb ts = Inr rb' \<and> ring_inv rb' \<and> capacity rb' = capacity rb \<and>
     window rb' = drop (length (window rb) + length ts - nat (capacity rb)) (window rb @ ts)"
proof (induction ts arbitrary: rb)
  case Nil
  then show ?case using ring_inv_length [of rb] by simp
next
  case (Cons t ts)
  from Add_window [OF Cons.prems, of t] obtain rb1 where
    a: "Add rb t = Inr rb1" and i: "ring_inv rb1" and c: "capacity rb1 = capacity rb"
    and w: "window rb1 = drop (Suc (length (window rb)) - nat (capacity rb)) (window rb @ [t])"
    by blast
  from Cons.IH [OF i] obtain rb' where
    b: "AddAll rb1 ts = Inr rb'" and i': "ring_inv rb'" and c': "capacity rb' = capacity rb1"
    and w': "window rb' = drop (length (window rb1) + length ts - nat (capacity rb1)) (window rb1 @ ts)"
    by blast
  have le: "length (window rb) \<le> nat (capacity rb)"
    by (rule ring_inv_length [OF Cons.prems])
  have "window rb' = drop (length (window rb) + length (t # ts) - nat (capacity rb)) (window rb @ t # ts)"
  proof (cases "length (window rb) < nat (capacity rb)")
    case True
    then show ?thesis using w w' c by simp
  next
    case False
    with le have e: "length (window rb) = nat (capacity rb)" by simp
    then have ne: "0 < nat (capacity rb)" using Cons.prems by (simp add: ring_inv_def)
    have w1: "window rb1 = tl (window rb) @ [t]"
      using w e ne by (cases "window rb") auto
    then have l1: "length (window rb1) = nat (capacity rb)" using e ne by simp
    have "length (window rb1) + length ts - nat (capacity rb1) = length ts"
      using c l1 by simp
    then have "window rb' = drop (length ts) (window rb1 @ ts)"
      using w' by simp
    then have "window rb' = drop (length ts) (tl (window rb) @ t # ts)"
      by (simp only: w1 append_assoc append_Cons append_Nil)
    also have "\<dots> = drop (Suc (length ts)) (window rb @ t # ts)"
      using e ne by (cases "window rb") auto
    finally show ?thesis using e by simp
  qed
  then show ?case using a b i' c c' by simp
qed

lemma GetRecent_unfold:
  "min (Size rb) n = m \<Longrightarrow> m \<noteq> 0 \<Longrightarrow> c_rem (pos rb - m + Size rb) (Size rb) = Inr start \<Longrightarrow>
   GetRecent rb n =
     (if start < pos rb then insert_range {} (tokens rb) start (pos rb)
      else (case insert_range {} (tokens rb) start (Size rb) of
              Inl e \<Rightarrow> Inl e
            | Inr r \<Rightarrow> insert_range r (tokens rb) 0 (pos rb)))"
  by (simp add: GetRecent_def Let_def)

lemma GetRecent_window:
  assumes "ring_inv rb" "0 < n"
  shows "GetRecent rb n = Inr (set (drop (length (window rb) - nat (min (Size rb) n)) (window rb)))"
proof (cases "tokens rb = []")
  case True
  then show ?thesis using assms(2) by (simp add: GetRecent_def Size_def window_def)
next
  case False
  define L where "L = length (tokens rb)"
  define m where "m = nat (min (Size rb) n)"
  have L0: "0 < L" using False by (simp add: L_def)
  have SL: "Size rb = int L" by (simp add: Size_def L_def)
  have m1: "0 < m" "m \<le> L" and mm: "min (Size rb) n = int m"
    using assms(2) L0 by (auto simp: m_def SL)
  show ?thesis
  proof (cases "Size rb < capacity rb")
    case True
    with assms have p: "pos rb = int L" by (simp add: ring_inv_def SL)
    have "int L - int m + int L = int (L - m) + int L" using m1 by simp
    moreover have "(int (L - m) + int L) mod int L = int (L - m)"
      using m1 by (intro mod_wrap) simp_all
    ultimately have "(int L - int m + int L) mod int L = int (L - m)"
      by (simp only:)
    then have st: "c_rem (pos rb - int m + int L) (int L) = Inr (int (L - m))"
      using p L0 m1 by (simp add: c_rem_nonneg)
    have lt: "int (L - m) < pos rb" using p m1 by simp
    have "GetRecent rb n = insert_range {} (tokens rb) (int (L - m)) (pos rb)"
      using GetRecent_unfold [OF mm, of "int (L - m)"] m1 st lt by (simp add: SL)
    also have "\<dots> = Inr (set (drop (L - m) (tokens rb)))"
      using p m1 by (simp add: insert_range_def L_def nat_int_diff)
    finally show ?thesis using True by (simp add: window_def L_def m_def)
  next
    case False
    with assms have e: "capacity rb = int L" and p0: "0 \<le> pos rb" "pos rb < int L"
      by (simp_all add: ring_inv_def SL)
    define k where "k = nat (pos rb)"
    have pk: "pos rb = int k" and kL: "k < L" using p0 by (simp_all add: k_def)
    have w: "window rb = drop k (tokens rb) @ take k (tokens rb)"
      using False by (simp add: window_def k_def)
    show ?thesis
    proof (cases "m \<le> k")
      case True
      have "int k - int m + int L = int (k - m) + int L" using True by simp
      moreover have "(int (k - m) + int L) mod int L = int (k - m)"
        using kL by (intro mod_wrap) simp_all
      ultimately have "(int k - int m + int L) mod int L = int (k - m)"
        by (simp only:)
      then have st: "c_rem (pos rb - int m + int L) (int L) = Inr (int (k - m))"
        using pk L0 m1 by (simp add: c_rem_nonneg)
      have lt: "int (k - m) < pos rb" using pk m1 True by simp
      have "GetRecent rb n = insert_range {} (tokens rb) (int (k - m)) (pos rb)"
        using GetRecent_unfold [OF mm, of "int (k - m)"] m1 st lt by (simp add: SL)
      also have "\<dots> = Inr (set (take m (drop (k - m) (tokens rb))))"
        using pk kL True by (simp add: insert_range_def L_def nat_int_diff)
      also have "take m (drop (k - m) (tokens rb)) = drop (k - m) (take k (tokens rb))"
        using True by (simp add: drop_take)
      also have "\<dots> = drop (length (window rb) - m) (window rb)"
        using True kL m1 by (simp add: w L_def)
      finally show ?thesis by (simp add: m_def)
    next
      case False
      then have km: "k < m" by simp
      have ge: "0 \<le> int k - int m + int L" "int k - int m + int L < int L"
        using km m1 by simp_all
      then have "(int k - int m + int L) mod int L = int k - int m + int L"
        by (intro mod_pos_pos_trivial)
      also have "\<dots> = int (k + L - m)" using m1 by simp
      finally have "(int k - int m + int L) mod int L = int (k + L - m)" .
      then have st: "c_rem (pos rb - int m + int L) (int L) = Inr (int (k + L - m))"
        using pk L0 ge by (simp add: c_rem_nonneg)
      have nlt: "\<not> int (k + L - m) < pos rb" using pk m1 by simp
      have "GetRecent rb n =
          (case insert_range {} (tokens rb) (int (k + L - m)) (int L) of
             Inl e \<Rightarrow> Inl e
           | Inr r \<Rightarrow> insert_range r (tokens rb) 0 (pos rb))"
        using GetRecent_unfold [OF mm, of "int (k + L - m)"] m1 st nlt by (simp add: SL)
      also have "\<dots> = Inr (set (drop (k + L - m) (tokens rb)) \<union> set (take k (tokens rb)))"
      proof -
        have 1: "insert_range {} (tokens rb) (int (k + L - m)) (int L) =
            Inr (set (drop (k + L - m) (tokens rb)))"
          using km m1 by (subst insert_range_nat) (simp_all add: L_def)
        have 2: "insert_range r (tokens rb) 0 (pos rb) = Inr (r \<union> set (take k (tokens rb)))" for r
          using insert_range_nat [of 0 k "tokens rb" r] kL pk by (simp add: L_def)
        show ?thesis by (simp only: 1 2 sum.case)
      qed
      also have "set (drop (k + L - m) (tokens rb)) \<union> set (take k (tokens rb)) =
          set (drop (length (window rb) - m) (window rb))"
        using km kL m1 by (simp add: w L_def add.commute)
      finally show ?thesis by (simp add: m_def)
    qed
  qed
qed

text \<open>
  C1. After \<^verbatim>\<open>Init(cap)\<close> with \<open>cap > 0\<close> and the calls \<^verbatim>\<open>Add(t)\<close> for the tokens \<open>t\<close> of
  \<open>ts\<close> in order, no call is undefined, \<^verbatim>\<open>Size()\<close> is \<open>min (length ts) cap\<close>, and for
  \<open>n > 0\<close> \<^verbatim>\<open>GetRecent(n)\<close> is the set of the last \<open>min (Size()) n\<close> tokens of \<open>ts\<close>,
  whatever the position of the write cursor.
\<close>

theorem GetRecent_last_inserted:
  assumes "0 < cap" and "0 < n"
  shows "\<exists>rb. AddAll (RingBuffer_Init cap rb0) ts = Inr rb \<and>
           Size rb = min (int (length ts)) cap \<and>
           GetRecent rb n = Inr (set (drop (length ts - nat (min (Size rb) n)) ts))"
proof -
  from AddAll_window [OF ring_inv_Init [OF assms(1)], of rb0 ts] obtain rb where
    a: "AddAll (RingBuffer_Init cap rb0) ts = Inr rb" and i: "ring_inv rb"
    and w: "window rb = drop (length ts - nat cap) ts"
    by (auto simp: window_Init [OF assms(1)] capacity_Init)
  have "length (tokens rb) = length ts - (length ts - nat cap)"
    using length_window [of rb] w by simp
  then have sz: "Size rb = min (int (length ts)) cap"
    using assms(1) unfolding Size_def by linarith
  define m where "m = nat (min (Size rb) n)"
  have "m \<le> length ts" "m \<le> nat cap" using sz by (simp_all add: m_def)
  then have "drop (length (window rb) - m) (window rb) = drop (length ts - m) ts"
    by (simp add: w)
  then have "GetRecent rb n = Inr (set (drop (length ts - m) ts))"
    using GetRecent_window [OF i assms(2)] by (simp add: m_def)
  then show ?thesis using a sz by (auto simp: m_def)
qed

text \<open>Capacity 3 and four tokens: the last two, and with \<open>n = 10\<close> the three retained.\<close>

theorem GetRecent_last_inserted_witness:
  "\<exists>rb. AddAll (RingBuffer_Init 3 \<lparr>capacity = 0, tokens = [], pos = 0\<rparr>) [10, 20, 30, 40] = Inr rb \<and>
     Size rb = 3 \<and> GetRecent rb 2 = Inr {30, 40} \<and> GetRecent rb 10 = Inr {20, 30, 40}"
proof -
  have c: "(0::int) < 3" and n2: "(0::int) < 2" and n10: "(0::int) < 10" by simp_all
  from GetRecent_last_inserted [OF c n2, of "\<lparr>capacity = 0, tokens = [], pos = 0\<rparr>" "[10, 20, 30, 40]"]
  obtain rb where a: "AddAll (RingBuffer_Init 3 \<lparr>capacity = 0, tokens = [], pos = 0\<rparr>) [10, 20, 30, 40] = Inr rb"
    and s: "Size rb = 3" and g2: "GetRecent rb 2 = Inr {30, 40}"
    by auto
  from GetRecent_last_inserted [OF c n10, of "\<lparr>capacity = 0, tokens = [], pos = 0\<rparr>" "[10, 20, 30, 40]"] a s
  have "GetRecent rb 10 = Inr {20, 30, 40}" by auto
  with a s g2 show ?thesis by blast
qed

text \<open>
  C2. \<^verbatim>\<open>GetRecent\<close> tests \<^verbatim>\<open>n == 0\<close> after \<^verbatim>\<open>n = std::min(size, n)\<close>, so a negative \<open>n\<close>
  goes on to the remainder: on the full buffer of capacity 3 holding 10, 20, 30,
  \<^verbatim>\<open>GetRecent(-1)\<close> is \<open>{20, 30}\<close>, not the empty set, and on an empty buffer it divides
  by zero.
\<close>

theorem GetRecent_negative_n:
  "AddAll (RingBuffer_Init 3 \<lparr>capacity = 0, tokens = [], pos = 0\<rparr>) [10, 20, 30] =
     Inr \<lparr>capacity = 3, tokens = [10, 20, 30], pos = 0\<rparr> \<and>
   GetRecent \<lparr>capacity = 3, tokens = [10, 20, 30], pos = 0\<rparr> (- 1) = Inr {20, 30} \<and>
   GetRecent (RingBuffer_Init 3 \<lparr>capacity = 0, tokens = [], pos = 0\<rparr>) (- 1) = Inl DivisionByZero"
  by code_simp

section \<open>Batches\<close>

declare chunks.simps [simp del]

lemma chunks_Nil: "chunks n [] = []"
  by (simp add: chunks.simps)

lemma chunks_step: "0 < n \<Longrightarrow> xs \<noteq> [] \<Longrightarrow> chunks n xs = take n xs # chunks n (drop n xs)"
  by (subst chunks.simps) simp

lemma concat_chunks: "0 < n \<Longrightarrow> concat (chunks n xs) = xs"
proof (induction n xs rule: chunks.induct)
  case (1 n xs)
  show ?case
  proof (cases "xs = []")
    case True
    then show ?thesis by (simp add: chunks_Nil)
  next
    case False
    with 1 show ?thesis by (simp add: chunks_step)
  qed
qed

lemma chunks_length: "0 < n \<Longrightarrow> c \<in> set (chunks n xs) \<Longrightarrow> 0 < length c \<and> length c \<le> n"
proof (induction n xs rule: chunks.induct)
  case (1 n xs)
  show ?case
  proof (cases "xs = []")
    case True
    with 1 show ?thesis by (simp add: chunks_Nil)
  next
    case False
    with 1 show ?thesis by (auto simp: chunks_step)
  qed
qed

lemma chunks_butlast: "0 < n \<Longrightarrow> c \<in> set (butlast (chunks n xs)) \<Longrightarrow> length c = n"
proof (induction n xs rule: chunks.induct)
  case (1 n xs)
  show ?case
  proof (cases "xs = []")
    case True
    with 1 show ?thesis by (simp add: chunks_Nil)
  next
    case False
    show ?thesis
    proof (cases "drop n xs = []")
      case True
      with 1 False show ?thesis by (simp add: chunks_step chunks_Nil)
    next
      case d: False
      then have "chunks n (drop n xs) \<noteq> []" using 1(2) by (simp add: chunks_step)
      with 1 False d show ?thesis by (auto simp: chunks_step)
    qed
  qed
qed

lemma batch_range_take:
  assumes "0 < b" "start < length toks"
  shows "batch_range toks (int start) (min (int start + int b) (int (length toks))) =
           Inr (take b (drop start toks))"
proof -
  let ?hi = "min (int start + int b) (int (length toks))"
  have "nat (?hi - int start) = min b (length toks - start)" using assms by linarith
  moreover have "take (min b (length toks - start)) (drop start toks) = take b (drop start toks)"
    by (simp add: min_def)
  ultimately show ?thesis using assms by (simp add: batch_range_def)
qed

lemma BatchEval_loop_chunks:
  assumes "0 < b"
  shows "BatchEval_loop hw ev toks (int b) thr s (int start) =
           Some (EvalChunks hw ev thr s (chunks b (drop start toks)))"
proof (induction "length toks - start" arbitrary: start s rule: less_induct)
  case less
  show ?case
  proof (cases "start < length toks")
    case False
    then show ?thesis by (subst BatchEval_loop.simps) (simp add: chunks_Nil)
  next
    case True
    then have ne: "drop start toks \<noteq> []" by simp
    have ch: "chunks b (drop start toks) = take b (drop start toks) # chunks b (drop (start + b) toks)"
      using chunks_step [OF assms ne] by (simp add: add.commute)
    have dec: "length toks - (start + b) < length toks - start" using True assms by simp
    have next_start: "int start + int b = int (start + b)" by simp
    show ?thesis
      apply (subst BatchEval_loop.simps)
      apply (simp only: batch_range_take [OF assms True])
      apply (simp only: next_start less.hyps [OF dec] ch)
      using True apply (simp split: sum.splits prod.splits)
      done
  qed
qed

lemma BatchEval_EvalChunks:
  "1 \<le> batch_size \<Longrightarrow>
   BatchEval hw ev s toks batch_size thr = Some (EvalChunks hw ev thr s (chunks (nat batch_size) toks))"
  using BatchEval_loop_chunks [of "nat batch_size" hw ev toks thr s 0]
  by (simp add: BatchEval_def)

lemma Eval_previous_tokens: "previous_tokens (snd (Eval ev s toks thr np)) = previous_tokens s"
  by (simp add: Eval_def split: prod.splits)

lemma AddAll_append:
  "AddAll rb (xs @ ys) = (case AddAll rb xs of Inl e \<Rightarrow> Inl e | Inr rb' \<Rightarrow> AddAll rb' ys)"
  by (induction xs arbitrary: rb) (auto split: sum.splits)

lemma EvalInternal_True:
  "EvalInternal hw ev s toks thr = Inr (True, s') \<Longrightarrow>
   AddAll (previous_tokens s) toks = Inr (previous_tokens s')"
  using Eval_previous_tokens [of ev s toks "if thr < 0 then min hw 4 else thr"
      "min (ContextLength s - int (length toks)) (Size (previous_tokens s))"]
  by (auto simp: EvalInternal_def Let_def split: prod.splits if_splits sum.splits)


lemma EvalChunks_True:
  "EvalChunks hw ev thr s cs = Inr (True, s') \<Longrightarrow>
   AddAll (previous_tokens s) (concat cs) = Inr (previous_tokens s')"
proof (induction cs arbitrary: s)
  case Nil
  then show ?case by simp
next
  case (Cons c cs)
  from Cons.prems obtain s1 where
    1: "EvalInternal hw ev s c thr = Inr (True, s1)" and 2: "EvalChunks hw ev thr s1 cs = Inr (True, s')"
    by (auto split: sum.splits prod.splits if_splits)
  show ?case
    using EvalInternal_True [OF 1] Cons.IH [OF 2] by (simp add: AddAll_append)
qed


lemma AddAll_Size:
  assumes "ring_inv rb" "AddAll rb ts = Inr rb'"
  shows "Size rb' = min (Size rb + int (length ts)) (capacity rb)"
proof -
  from AddAll_window [OF assms(1), of ts] assms(2)
  have w: "window rb' = drop (length (window rb) + length ts - nat (capacity rb)) (window rb @ ts)"
    by simp
  have "length (window rb') = length (window rb) + length ts - (length (window rb) + length ts - nat (capacity rb))"
    unfolding w by simp
  then show ?thesis
    using ring_inv_length [OF assms(1)] assms(1)
    unfolding length_window Size_def ring_inv_def by linarith
qed

lemma EvalInternal_recording:
  assumes "EvalInternal hw (recording ev) s toks thr = Inr (ok, s')"
  shows "calls s' = calls s @ [(toks, if thr < 0 then min hw 4 else thr,
           min (n_ctx s - int (length toks)) (Size (previous_tokens s)))]"
  using assms
  by (cases "model s")
    (auto simp: EvalInternal_def Eval_def recording_def calls_def ContextLength_def Let_def
      split: prod.splits if_splits sum.splits)

lemma EvalInternal_defined:
  assumes "ring_inv (previous_tokens s)"
  shows "\<exists>ok s'. EvalInternal hw ev s toks thr = Inr (ok, s')"
proof -
  obtain ok s1 where e: "Eval ev s toks (if thr < 0 then min hw 4 else thr)
      (min (ContextLength s - int (length toks)) (Size (previous_tokens s))) = (ok, s1)"
    by (cases "Eval ev s toks (if thr < 0 then min hw 4 else thr)
      (min (ContextLength s - int (length toks)) (Size (previous_tokens s)))")
  then have "previous_tokens s1 = previous_tokens s"
    using Eval_previous_tokens [of ev s toks "if thr < 0 then min hw 4 else thr"
      "min (ContextLength s - int (length toks)) (Size (previous_tokens s))"] by simp
  then obtain rb where "AddAll (previous_tokens s1) toks = Inr rb"
    using AddAll_window [OF assms, of toks] by auto
  then show ?thesis using e by (auto simp: EvalInternal_def Let_def)
qed

text \<open>
  C3. One internal evaluation step on the batch \<open>toks\<close> calls the engine once, with
  \<open>n_past = min (n_ctx - length toks) occ\<close>, where \<open>occ\<close> is the occupancy of the recency
  buffer before the step: whenever the step returns, the engine's record of calls has grown
  by exactly that call, and the step does return when the recency buffer is one that
  \<^verbatim>\<open>Init\<close> and \<^verbatim>\<open>Add\<close> produce.
\<close>

theorem EvalInternal_n_past:
  "(ring_inv (previous_tokens s) \<longrightarrow>
      (\<exists>ok s'. EvalInternal hw (recording ev) s toks thr = Inr (ok, s'))) \<and>
   (\<forall>ok s'. EvalInternal hw (recording ev) s toks thr = Inr (ok, s') \<longrightarrow>
      calls s' = calls s @ [(toks, if thr < 0 then min hw 4 else thr,
        min (n_ctx s - int (length toks)) (Size (previous_tokens s)))])"
  using EvalInternal_defined [of s hw "recording ev" toks thr]
    EvalInternal_recording [of hw ev s toks thr]
  by blast

text \<open>Context length 8, occupancy 5, a batch of 3 tokens: \<open>n_past = 5\<close>.\<close>

theorem EvalInternal_n_past_witness:
  "ring_inv (previous_tokens ((session ((), []) plain_vocab 8)
      \<lparr>previous_tokens := \<lparr>capacity = 8, tokens = [1, 2, 3, 4, 5], pos = 5\<rparr>\<rparr>)) \<and>
   (\<exists>ok s'. EvalInternal 2 (recording engine_ok)
      ((session ((), []) plain_vocab 8)
        \<lparr>previous_tokens := \<lparr>capacity = 8, tokens = [1, 2, 3, 4, 5], pos = 5\<rparr>\<rparr>) [6, 7, 8] (- 1) =
        Inr (ok, s') \<and> calls s' = [([6, 7, 8], 2, 5)])"
proof -
  let ?s = "(session ((), []) plain_vocab 8)
      \<lparr>previous_tokens := \<lparr>capacity = 8, tokens = [1, 2, 3, 4, 5], pos = 5\<rparr>\<rparr>"
  have i: "ring_inv (previous_tokens ?s)"
    by (simp add: ring_inv_def session_def Size_def)
  note T = EvalInternal_n_past [of ?s 2 engine_ok "[6, 7, 8]" "- 1"]
  from T [THEN conjunct1, THEN mp, OF i] obtain ok s' where
    e: "EvalInternal 2 (recording engine_ok) ?s [6, 7, 8] (- 1) = Inr (ok, s')"
    by (elim exE)
  from T [THEN conjunct2, rule_format, OF e]
  have "calls s' = [([6, 7, 8], 2, 5)]"
    by (simp add: calls_def session_def Size_def)
  with i e show ?thesis by blast
qed

lemma EvalChunks_recording:
  "EvalChunks hw (recording ev) thr s cs = Inr (True, s') \<Longrightarrow>
   \<exists>X. calls s' = calls s @ X \<and> map fst X = cs"
proof (induction cs arbitrary: s)
  case Nil
  then show ?case by simp
next
  case (Cons c cs)
  from Cons.prems obtain s1 where
    1: "EvalInternal hw (recording ev) s c thr = Inr (True, s1)"
    and 2: "EvalChunks hw (recording ev) thr s1 cs = Inr (True, s')"
    by (auto split: sum.splits prod.splits if_splits)
  from Cons.IH [OF 2] obtain X where X: "calls s' = calls s1 @ X" "map fst X = cs" by blast
  from EvalInternal_recording [OF 1] obtain y where y: "calls s1 = calls s @ [y]" "fst y = c"
    by simp
  have "calls s' = calls s @ (y # X) \<and> map fst (y # X) = c # cs"
    using X y by simp
  then show ?case by (intro exI [of _ "y # X"])
qed

lemmas eval_defs = EvalInternal_def Eval_def recording_def engine_ok_def engine_until_def
  session_def Add_def c_rem_def Size_def ContextLength_def smod_int_alt_def chunks.simps

text \<open>
  C4. For a batch size of at least 1, \<^verbatim>\<open>BatchEval\<close> returns, and what it returns is the
  result of putting the chunks of the tokens through the internal evaluation step one after
  the other. The chunks are consecutive (their concatenation is the token sequence), none
  is empty or longer than the batch size, and all but the last have exactly the batch size.
  On success the engine has been called once per chunk, in order, and the occupancy of the
  recency buffer is its occupancy before plus the number of tokens, capped at its capacity.
\<close>

theorem BatchEval_chunks:
  assumes "1 \<le> batch_size"
  shows "BatchEval hw ev s toks batch_size thr =
           Some (EvalChunks hw ev thr s (chunks (nat batch_size) toks)) \<and>
         concat (chunks (nat batch_size) toks) = toks \<and>
         (\<forall>c \<in> set (chunks (nat batch_size) toks). 0 < length c \<and> int (length c) \<le> batch_size) \<and>
         (\<forall>c \<in> set (butlast (chunks (nat batch_size) toks)). int (length c) = batch_size) \<and>
         (\<forall>r r'. BatchEval hw (recording ev) r toks batch_size thr = Some (Inr (True, r')) \<longrightarrow>
            map fst (drop (length (calls r)) (calls r')) = chunks (nat batch_size) toks) \<and>
         (\<forall>s'. ring_inv (previous_tokens s) \<and>
              BatchEval hw ev s toks batch_size thr = Some (Inr (True, s')) \<longrightarrow>
            Size (previous_tokens s') =
              min (Size (previous_tokens s) + int (length toks)) (capacity (previous_tokens s)))"
proof -
  let ?cs = "chunks (nat batch_size) toks"
  have n: "0 < nat batch_size" using assms by simp
  have 1: "BatchEval hw ev s toks batch_size thr = Some (EvalChunks hw ev thr s ?cs)"
    by (rule BatchEval_EvalChunks [OF assms])
  have 2: "concat ?cs = toks" by (rule concat_chunks [OF n])
  have 3: "\<forall>c \<in> set ?cs. 0 < length c \<and> int (length c) \<le> batch_size"
  proof
    fix c assume "c \<in> set ?cs"
    from chunks_length [OF n this] show "0 < length c \<and> int (length c) \<le> batch_size" by linarith
  qed
  have 4: "\<forall>c \<in> set (butlast ?cs). int (length c) = batch_size"
  proof
    fix c assume "c \<in> set (butlast ?cs)"
    from chunks_butlast [OF n this] show "int (length c) = batch_size" using assms by linarith
  qed
  have 5: "map fst (drop (length (calls r)) (calls r')) = ?cs"
    if "BatchEval hw (recording ev) r toks batch_size thr = Some (Inr (True, r'))" for r r'
  proof -
    from that have "EvalChunks hw (recording ev) thr r ?cs = Inr (True, r')"
      by (simp add: BatchEval_EvalChunks [OF assms])
    from EvalChunks_recording [OF this] show ?thesis by auto
  qed
  have 6: "Size (previous_tokens s') =
      min (Size (previous_tokens s) + int (length toks)) (capacity (previous_tokens s))"
    if "ring_inv (previous_tokens s) \<and> BatchEval hw ev s toks batch_size thr = Some (Inr (True, s'))" for s'
  proof -
    from that 1 have "EvalChunks hw ev thr s ?cs = Inr (True, s')" by simp
    from EvalChunks_True [OF this] have "AddAll (previous_tokens s) toks = Inr (previous_tokens s')"
      by (simp only: 2)
    with that show ?thesis using AddAll_Size by blast
  qed
  from 1 2 3 4 5 6 show ?thesis by blast
qed

text \<open>
  Ten tokens in batches of 4: three calls, on 4, 4 and 2 tokens; the buffer then holds 10
  tokens when its capacity is 16, and 8 when its capacity is 8.
\<close>

theorem BatchEval_chunks_witness:
  "(1::int) \<le> 4 \<and>
   (\<exists>s'. BatchEval 2 (recording engine_ok) (session ((), []) plain_vocab 16)
            [1, 2, 3, 4, 5, 6, 7, 8, 9, 10] 4 (- 1) = Some (Inr (True, s')) \<and>
         map fst (calls s') = [[1, 2, 3, 4], [5, 6, 7, 8], [9, 10]] \<and>
         Size (previous_tokens s') = 10) \<and>
   (\<exists>s'. BatchEval 2 (recording engine_ok) (session ((), []) plain_vocab 8)
            [1, 2, 3, 4, 5, 6, 7, 8, 9, 10] 4 (- 1) = Some (Inr (True, s')) \<and>
         calls s' \<noteq> [] \<and> Size (previous_tokens s') = 8)"
proof -
  let ?toks = "[1, 2, 3, 4, 5, 6, 7, 8, 9, 10] :: token_id list"
  let ?S = "\<lambda>n. session ((), [] :: eval_call list) plain_vocab n"
  have h: "(1::int) \<le> 4" by simp
  note A = BatchEval_chunks [OF h, of 2 "recording engine_ok" "?S 16" ?toks "- 1"]
  note B = BatchEval_chunks [OF h, of 2 "recording engine_ok" "?S 8" ?toks "- 1"]
  note C = BatchEval_chunks [OF h, of 2 engine_ok "session () plain_vocab 16" ?toks "- 1"]
  have i: "ring_inv (previous_tokens (?S n))" if "0 < n" for n
    using that by (simp add: ring_inv_def session_def Size_def)
  have "\<exists>s'. EvalChunks 2 (recording engine_ok) (- 1) (?S 16) (chunks (nat 4) ?toks) = Inr (True, s')"
    by (simp add: eval_defs)
  with A obtain s16 where
    a: "BatchEval 2 (recording engine_ok) (?S 16) ?toks 4 (- 1) = Some (Inr (True, s16))"
    by auto
  from A a i [of 16] have a1: "Size (previous_tokens s16) = 10"
    by (simp add: session_def Size_def)
  from C [THEN conjunct2, THEN conjunct2, THEN conjunct2, THEN conjunct2, THEN conjunct1,
      rule_format, OF a]
  have a2: "map fst (calls s16) = [[1, 2, 3, 4], [5, 6, 7, 8], [9, 10]]"
    by (simp add: calls_def session_def chunks.simps)
  have "\<exists>s'. EvalChunks 2 (recording engine_ok) (- 1) (?S 8) (chunks (nat 4) ?toks) = Inr (True, s')"
    by (simp add: eval_defs)
  with B obtain s8 where
    b: "BatchEval 2 (recording engine_ok) (?S 8) ?toks 4 (- 1) = Some (Inr (True, s8))"
    by auto
  from B b i [of 8] have b1: "Size (previous_tokens s8) = 8"
    by (simp add: session_def Size_def)
  from C [THEN conjunct2, THEN conjunct2, THEN conjunct2, THEN conjunct2, THEN conjunct1,
      rule_format, OF b]
  have b2: "calls s8 \<noteq> []"
    by (auto simp: calls_def session_def chunks.simps)
  from a a2 a1 have e16: "\<exists>s'. BatchEval 2 (recording engine_ok) (?S 16) ?toks 4 (- 1) = Some (Inr (True, s')) \<and>
      map fst (calls s') = [[1, 2, 3, 4], [5, 6, 7, 8], [9, 10]] \<and> Size (previous_tokens s') = 10"
    by (intro exI [of _ s16] conjI)
  from b b2 b1 have e8: "\<exists>s'. BatchEval 2 (recording engine_ok) (?S 8) ?toks 4 (- 1) = Some (Inr (True, s')) \<and>
      calls s' \<noteq> [] \<and> Size (previous_tokens s') = 8"
    by (intro exI [of _ s8] conjI)
  from h e16 e8 show ?thesis by (intro conjI)
qed





section \<open>Initialisation, end of sequence and sampling\<close>

text \<open>
  C6. \<^verbatim>\<open>Init\<close> on an initialised session returns failure and the session as it was,
  whatever the loader is. On a session that is not initialised and whose loader fails, it
  returns failure and the session is still not initialised. A session on which \<^verbatim>\<open>Init\<close>
  returned success is initialised, and any further \<^verbatim>\<open>Init\<close> on it fails and changes nothing.
\<close>

theorem LLM_Init_exactly_once:
  "(initialized s \<longrightarrow> LLM_Init model_load hparams_n_ctx filename s = (False, s)) \<and>
   (\<not> initialized s \<and> \<not> fst (model_load filename (model s) (vocab s)) \<longrightarrow>
      (\<exists>s'. LLM_Init model_load hparams_n_ctx filename s = (False, s') \<and> \<not> initialized s')) \<and>
   (\<forall>s'. LLM_Init model_load hparams_n_ctx filename s = (True, s') \<longrightarrow>
      initialized s' \<and> LLM_Init model_load' hparams_n_ctx' filename' s' = (False, s'))"
  by (auto simp: LLM_Init_def Load_def split: prod.splits if_splits)

text \<open>A second \<^verbatim>\<open>Init\<close>, a failing loader, and a first \<^verbatim>\<open>Init\<close> followed by a second.\<close>

theorem LLM_Init_exactly_once_witness:
  "LLM_Init load_ok (\<lambda>m. 8) ''model.bin'' (session () plain_vocab 16) = (False, session () plain_vocab 16) \<and>
   (\<exists>s'. LLM_Init load_fail (\<lambda>m. 8) ''model.bin'' ((session () plain_vocab 16)\<lparr>initialized := False\<rparr>) = (False, s') \<and>
      \<not> initialized s') \<and>
   (\<exists>s'. LLM_Init load_ok (\<lambda>m. 8) ''model.bin'' ((session () plain_vocab 16)\<lparr>initialized := False\<rparr>) = (True, s') \<and>
      initialized s' \<and> n_ctx s' = 8 \<and> LLM_Init load_ok (\<lambda>m. 8) ''model.bin'' s' = (False, s'))"
proof -
  let ?S = "session () plain_vocab 16"
  let ?U = "?S\<lparr>initialized := False\<rparr>"
  have i: "initialized ?S" by (simp add: session_def)
  from LLM_Init_exactly_once [of ?S load_ok "\<lambda>m. 8" "''model.bin''", THEN conjunct1, THEN mp, OF i]
  have a: "LLM_Init load_ok (\<lambda>m. 8) ''model.bin'' ?S = (False, ?S)" .
  have u: "\<not> initialized ?U \<and> \<not> fst (load_fail ''model.bin'' (model ?U) (vocab ?U))"
    by (simp add: session_def load_fail_def)
  from LLM_Init_exactly_once [of ?U load_fail "\<lambda>m. 8" "''model.bin''", THEN conjunct2, THEN conjunct1, THEN mp, OF u]
  have b: "\<exists>s'. LLM_Init load_fail (\<lambda>m. 8) ''model.bin'' ?U = (False, s') \<and> \<not> initialized s'" .
  have "\<exists>s'. LLM_Init load_ok (\<lambda>m. 8) ''model.bin'' ?U = (True, s') \<and> n_ctx s' = 8"
    by (simp add: LLM_Init_def Load_def load_ok_def session_def)
  then obtain s' where c: "LLM_Init load_ok (\<lambda>m. 8) ''model.bin'' ?U = (True, s')" and n: "n_ctx s' = 8"
    by blast
  from LLM_Init_exactly_once [of ?U load_ok "\<lambda>m. 8" "''model.bin''" load_ok "\<lambda>m. 8" "''model.bin''",
      THEN conjunct2, THEN conjunct2, rule_format, OF c]
  have "initialized s' \<and> LLM_Init load_ok (\<lambda>m. 8) ''model.bin'' s' = (False, s')" .
  with c n have d: "\<exists>s'. LLM_Init load_ok (\<lambda>m. 8) ''model.bin'' ?U = (True, s') \<and>
      initialized s' \<and> n_ctx s' = 8 \<and> LLM_Init load_ok (\<lambda>m. 8) ''model.bin'' s' = (False, s')"
    by (intro exI [of _ s']) simp
  from a b d show ?thesis by (intro conjI)
qed

text \<open>
  C7. \<^verbatim>\<open>IsEosToken\<close> holds of the end-of-sequence id; of any other token it holds exactly
  when the vocabulary has a special token and the token's text is \<^verbatim>\<open>### End\<close>.
\<close>

theorem IsEosToken_cases:
  "(t = EosToken s \<longrightarrow> IsEosToken s t) \<and>
   (t \<noteq> EosToken s \<longrightarrow>
      (IsEosToken s t \<longleftrightarrow> special_tokens (vocab s) \<noteq> [] \<and> Detokenize s t = ''### End''))"
  by (simp add: IsEosToken_def)

lemmas vocab_defs = dolly_vocab_def gpt2_vocab_def plain_vocab_def session_def
  EosToken_def IsEosToken_def Detokenize_def kEmptyString_def lookup_update' Mapping.lookup_empty

text \<open>
  With no special token, the end-of-sequence id 7 is accepted and the id 9 of \<^verbatim>\<open>### End\<close>
  is not; with a special token both are, and the unknown id 5 is not.
\<close>

theorem IsEosToken_cases_witness:
  "IsEosToken (session () gpt2_vocab 16) 7 \<and>
   \<not> IsEosToken (session () gpt2_vocab 16) 9 \<and>
   Detokenize (session () gpt2_vocab 16) 9 = ''### End'' \<and>
   IsEosToken (session () dolly_vocab 16) 7 \<and>
   IsEosToken (session () dolly_vocab 16) 9 \<and>
   \<not> IsEosToken (session () dolly_vocab 16) 5"
proof -
  let ?G = "session () gpt2_vocab 16"
  let ?D = "session () dolly_vocab 16"
  have g: "EosToken ?G = 7" "special_tokens (vocab ?G) = []" "Detokenize ?G 9 = ''### End''"
    by (simp_all add: vocab_defs)
  have d: "EosToken ?D = 7" "special_tokens (vocab ?D) \<noteq> []" "Detokenize ?D 9 = ''### End''"
    "Detokenize ?D 5 = []"
    by (simp_all add: vocab_defs)
  show ?thesis
    using IsEosToken_cases [of 7 ?G] IsEosToken_cases [of 9 ?G]
      IsEosToken_cases [of 7 ?D] IsEosToken_cases [of 9 ?D] IsEosToken_cases [of 5 ?D]
    by (simp add: g d)
qed

text \<open>
  C8. With no logits, \<^verbatim>\<open>Sample\<close> returns the end-of-sequence id for every sampler, every
  clock value, all parameters and every content of the recency buffer, also one on which
  \<^verbatim>\<open>GetRecent\<close> would be undefined: neither the buffer, nor the generator, nor the sampler
  has a part in the result.
\<close>

theorem Sample_no_logits:
  "logits s = [] \<Longrightarrow>
   Sample gpt_sample_top_k_top_p now (s\<lparr>previous_tokens := rb\<rparr>)
     top_k top_p temperature repetition_penalty last_n_tokens seed = Inr (EosToken s)"
  by (simp add: Sample_def EosToken_def)

text \<open>No logits, a buffer with a cursor outside its storage, a penalty other than 1.\<close>

theorem Sample_no_logits_witness:
  "logits (session () dolly_vocab 16) = [] \<and>
   Sample sampler_probe 1000 ((session () dolly_vocab 16)\<lparr>previous_tokens := \<lparr>capacity = 0, tokens = [], pos = 5\<rparr>\<rparr>)
     40 0.95 0.8 1.1 (- 1) (- 1) = Inr 7"
proof -
  have l: "logits (session () dolly_vocab 16) = []" by (simp add: session_def)
  have e: "EosToken (session () dolly_vocab 16) = 7" by (simp add: vocab_defs)
  from Sample_no_logits [OF l, of sampler_probe 1000 "\<lparr>capacity = 0, tokens = [], pos = 5\<rparr>" 40 "0.95" "0.8" "1.1" "- 1" "- 1"]
  show ?thesis using l by (simp add: e)
qed

text \<open>
  C9. With a repetition penalty of exactly 1, two sessions with the same logits and the
  same vocabulary, whatever their recency buffers (and context lengths) are, give the same
  result of \<^verbatim>\<open>Sample\<close> for the same parameters when the seed is not negative, and also for
  a negative seed when both runs read the same clock value: a negative seed is replaced by
  \<^verbatim>\<open>time(nullptr)\<close>, so that two runs at different times seed the generator differently.
  In every case the sampler is given the empty set of recent tokens: replacing the sampler
  by one that ignores the set it is given and uses the empty set changes nothing.
\<close>

theorem Sample_penalty_one:
  "logits s1 = logits s2 \<and> vocab s1 = vocab s2 \<longrightarrow>
     Sample gpt_sample_top_k_top_p now s1 top_k top_p temperature 1 last_n_tokens seed =
       Sample gpt_sample_top_k_top_p now s2 top_k top_p temperature 1 last_n_tokens seed \<and>
     (0 \<le> seed \<longrightarrow>
        Sample gpt_sample_top_k_top_p now s1 top_k top_p temperature 1 last_n_tokens seed =
          Sample gpt_sample_top_k_top_p now' s2 top_k top_p temperature 1 last_n_tokens seed) \<and>
     Sample gpt_sample_top_k_top_p now s1 top_k top_p temperature 1 last_n_tokens seed =
       Sample (\<lambda>v l k p t rp recent_tokens rng. gpt_sample_top_k_top_p v l k p t rp {} rng)
         now s1 top_k top_p temperature 1 last_n_tokens seed"
  by (simp add: Sample_def EosToken_def logits_tail_def VocabSize_def Let_def split: sum.splits)

text \<open>
  The probing sampler returns the seed 42 on both sessions with the penalty 1, and
  \<open>- 1\<close> with the penalty 1.1 on the session whose buffer holds tokens.
\<close>

theorem Sample_penalty_one_witness:
  "Sample sampler_probe 1000 ((session () dolly_vocab 16)\<lparr>logits := [0.5, 1.5, 2.5]\<rparr>) 40 0.95 0.8 1 64 42 = Inr 42 \<and>
   Sample sampler_probe 2000 ((session () dolly_vocab 16)
       \<lparr>logits := [0.5, 1.5, 2.5], previous_tokens := \<lparr>capacity = 16, tokens = [7, 9, 9], pos = 3\<rparr>\<rparr>)
     40 0.95 0.8 1 64 42 = Inr 42 \<and>
   Sample sampler_probe 1000 ((session () dolly_vocab 16)
       \<lparr>logits := [0.5, 1.5, 2.5], previous_tokens := \<lparr>capacity = 16, tokens = [7, 9, 9], pos = 3\<rparr>\<rparr>)
     40 0.95 0.8 1.1 64 42 = Inr (- 1)"
proof -
  let ?s1 = "(session () dolly_vocab 16)\<lparr>logits := [0.5, 1.5, 2.5]\<rparr>"
  let ?s2 = "(session () dolly_vocab 16)
       \<lparr>logits := [0.5, 1.5, 2.5], previous_tokens := \<lparr>capacity = 16, tokens = [7, 9, 9], pos = 3\<rparr>\<rparr>"
  have h: "logits ?s1 = logits ?s2 \<and> vocab ?s1 = vocab ?s2" by (simp add: session_def)
  have s: "(0::int) \<le> 42" by simp
  have a: "Sample sampler_probe 1000 ?s1 40 0.95 0.8 1 64 42 = Inr 42"
    by (simp add: Sample_def sampler_probe_def logits_tail_def VocabSize_def session_def dolly_vocab_def Mapping.size_def)
  from Sample_penalty_one [of ?s1 ?s2 sampler_probe 1000 40 "0.95" "0.8" 64 42 2000, THEN mp, OF h,
      THEN conjunct2, THEN conjunct1, THEN mp, OF s] a
  have b: "Sample sampler_probe 2000 ?s2 40 0.95 0.8 1 64 42 = Inr 42" by simp
  have c: "Sample sampler_probe 1000 ?s2 40 0.95 0.8 1.1 64 42 = Inr (- 1)"
    by (simp add: Sample_def sampler_probe_def logits_tail_def VocabSize_def session_def dolly_vocab_def Mapping.size_def
        GetRecent_def insert_range_def c_rem_def Size_def smod_int_alt_def)
  from a b c show ?thesis by (intro conjI)
qed

text \<open>
  For a negative seed the two runs need the same clock value: with the seed \<open>- 1\<close> and the
  penalty 1, two sessions with the same logits and vocabulary give the probing sampler the
  seed 1000 when the clock reads 1000 and the seed 2000 when it reads 2000.
\<close>

theorem Sample_negative_seed_counterexample:
  "logits ((session () dolly_vocab 16)\<lparr>logits := [0.5, 1.5, 2.5]\<rparr>) =
     logits ((session () dolly_vocab 16)
       \<lparr>logits := [0.5, 1.5, 2.5], previous_tokens := \<lparr>capacity = 16, tokens = [7, 9, 9], pos = 3\<rparr>\<rparr>) \<and>
   vocab ((session () dolly_vocab 16)\<lparr>logits := [0.5, 1.5, 2.5]\<rparr>) =
     vocab ((session () dolly_vocab 16)
       \<lparr>logits := [0.5, 1.5, 2.5], previous_tokens := \<lparr>capacity = 16, tokens = [7, 9, 9], pos = 3\<rparr>\<rparr>) \<and>
   Sample sampler_probe 1000 ((session () dolly_vocab 16)\<lparr>logits := [0.5, 1.5, 2.5]\<rparr>)
     40 0.95 0.8 1 64 (- 1) = Inr 1000 \<and>
   Sample sampler_probe 2000 ((session () dolly_vocab 16)
       \<lparr>logits := [0.5, 1.5, 2.5], previous_tokens := \<lparr>capacity = 16, tokens = [7, 9, 9], pos = 3\<rparr>\<rparr>)
     40 0.95 0.8 1 64 (- 1) = Inr 2000 \<and>
   Sample sampler_probe 1000 ((session () dolly_vocab 16)\<lparr>logits := [0.5, 1.5, 2.5]\<rparr>)
     40 0.95 0.8 1 64 (- 1) \<noteq>
   Sample sampler_probe 2000 ((session () dolly_vocab 16)
       \<lparr>logits := [0.5, 1.5, 2.5], previous_tokens := \<lparr>capacity = 16, tokens = [7, 9, 9], pos = 3\<rparr>\<rparr>)
     40 0.95 0.8 1 64 (- 1)"
  by (simp add: Sample_def sampler_probe_def logits_tail_def VocabSize_def session_def dolly_vocab_def
      Mapping.size_def)

text \<open>
  C10. The end-of-sequence id is the id that the vocabulary gives to the text
  \<^verbatim>\<open><|endoftext|>\<close>; for a vocabulary without that text it is 0, so that \<^verbatim>\<open>IsEosToken(0)\<close>
  holds and \<^verbatim>\<open>Sample\<close> with no logits returns 0.
\<close>

theorem EosToken_endoftext:
  "(Mapping.lookup (token_to_id (vocab s)) ''<|endoftext|>'' = Some i \<longrightarrow> EosToken s = i) \<and>
   (Mapping.lookup (token_to_id (vocab s)) ''<|endoftext|>'' = None \<longrightarrow>
      EosToken s = 0 \<and> IsEosToken s 0 \<and>
      (logits s = [] \<longrightarrow>
         Sample gpt_sample_top_k_top_p now s top_k top_p temperature repetition_penalty
           last_n_tokens seed = Inr 0))"
  by (simp add: EosToken_def IsEosToken_def Sample_def)

text \<open>
  A vocabulary that maps \<^verbatim>\<open><|endoftext|>\<close> to 7, and one without it, in which 0 is the id
  of the ordinary token \<^verbatim>\<open>a\<close>.
\<close>

theorem EosToken_endoftext_witness:
  "EosToken (session () gpt2_vocab 16) = 7 \<and>
   EosToken (session () plain_vocab 16) = 0 \<and> IsEosToken (session () plain_vocab 16) 0 \<and>
   Detokenize (session () plain_vocab 16) 0 = ''a'' \<and>
   Sample sampler_probe 1000 (session () plain_vocab 16) 40 0.95 0.8 1.1 64 42 = Inr 0"
proof -
  let ?G = "session () gpt2_vocab 16"
  let ?P = "session () plain_vocab 16"
  have g: "Mapping.lookup (token_to_id (vocab ?G)) ''<|endoftext|>'' = Some 7"
    by (simp add: session_def gpt2_vocab_def lookup_update' Mapping.lookup_empty)
  have p: "Mapping.lookup (token_to_id (vocab ?P)) ''<|endoftext|>'' = None"
    by (simp add: session_def plain_vocab_def lookup_update' Mapping.lookup_empty)
  have l: "logits ?P = []" by (simp add: session_def)
  have d: "Detokenize ?P 0 = ''a''" by (simp add: vocab_defs)
  note G = EosToken_endoftext [of ?G 7, THEN conjunct1, THEN mp, OF g]
  note P = EosToken_endoftext [of ?P _ sampler_probe 1000 40 "0.95" "0.8" "1.1" 64 42, THEN conjunct2, THEN mp, OF p]
  from G P l d show ?thesis by simp
qed

end
